theory Spec2Isabelle
  imports Main "HOL-Library.Sublist"
begin

section \<open>Errors\<close>

text \<open>
  The exceptions of \<^verbatim>\<open>kosh/api/fcs.py\<close> and \<^verbatim>\<open>kosh/elastic/search.py\<close> as values.
  \<open>SRUException\<close> carries the diagnostic, its details and the optional message;
  \<open>TypeError\<close> and \<open>ValueError\<close> are Python's own; \<open>BackendError\<close> stands for any
  exception the search backend raises.
\<close>

datatype SRUDiagnostics =
    UNSUPPORTED_BOOLEAN_OPERATOR
  | CANNOT_PROCESS_QUERY_REASON_UNKNOWN

datatype error =
    SRUException SRUDiagnostics string "string option"
  | TypeError
  | ValueError
  | BackendError string

section \<open>KoshFCSSearchResultSet\<close>

text \<open>
  The part of an \<open>SRURequest\<close> the result set reads, and the result set itself with the
  fields \<open>__init__\<close> assigns. \<open>results\<close> is \<open>Optional[List[...]]\<close>: \<open>None\<close> is Python's
  \<open>None\<close>. Python's integers are unbounded, hence \<open>int\<close>. The diagnostics, the resource
  identifier and the request itself, which \<open>__init__\<close> also stores, are read by none of
  the methods below and are left out. \<open>if request:\<close> tells a request from \<open>None\<close>.
\<close>

record SRURequest =
  get_start_record :: int
  get_maximum_records :: int

record 'h KoshFCSSearchResultSet =
  results :: "'h list option"
  start_record :: int
  current_record_cursor :: int
  maximum_records :: int
  record_count :: int

definition init_result_set ::
  "'h list option \<Rightarrow> SRURequest option \<Rightarrow> 'h KoshFCSSearchResultSet" where
  "init_result_set res request =
     (case request of
        Some rq \<Rightarrow>
          (let sr = max 1 (get_start_record rq) in
           \<lparr> results = res,
             start_record = sr,
             current_record_cursor = sr - 1,
             maximum_records = sr - 1 + get_maximum_records rq,
             record_count = get_maximum_records rq \<rparr>)
      | None \<Rightarrow>
           \<lparr> results = res,
             start_record = 1,
             current_record_cursor = 1 - 1,
             maximum_records = 250,
             record_count = 250 \<rparr>)"

text \<open>
  \<open>if self.results:\<close> tests truthiness: \<open>None\<close> and the empty list are both false.
\<close>

definition truthy :: "'h list option \<Rightarrow> bool" where
  "truthy r = (case r of None \<Rightarrow> False | Some hs \<Rightarrow> hs \<noteq> [])"

definition get_total_record_count :: "'h KoshFCSSearchResultSet \<Rightarrow> int" where
  "get_total_record_count c =
     (if truthy (results c) then int (length (the (results c))) else - 1)"

definition get_record_count :: "'h KoshFCSSearchResultSet \<Rightarrow> int" where
  "get_record_count c =
     (if truthy (results c) \<and> int (length (the (results c))) > - 1 then
        (if int (length (the (results c))) < maximum_records c
         then int (length (the (results c)))
         else maximum_records c)
      else 0)"

text \<open>\<open>len(None)\<close> raises \<open>TypeError\<close>.\<close>

definition py_len :: "'h list option \<Rightarrow> error + int" where
  "py_len r = (case r of None \<Rightarrow> Inl TypeError | Some hs \<Rightarrow> Inr (int (length hs)))"

definition next_record ::
  "'h KoshFCSSearchResultSet \<Rightarrow> error + (bool \<times> 'h KoshFCSSearchResultSet)" where
  "next_record c =
     (case py_len (results c) of
        Inl e \<Rightarrow> Inl e
      | Inr n \<Rightarrow>
          (if current_record_cursor c < min n (maximum_records c)
           then Inr (True, c\<lparr>current_record_cursor := current_record_cursor c + 1\<rparr>)
           else Inr (False, c)))"

text \<open>
  \<open>n\<close> calls of \<open>next_record\<close> in a row on the same object: the values returned, in order,
  and the object afterwards. The first exception ends the run.
\<close>

fun next_records ::
  "nat \<Rightarrow> 'h KoshFCSSearchResultSet \<Rightarrow> error + (bool list \<times> 'h KoshFCSSearchResultSet)" where
  "next_records 0 c = Inr ([], c)"
| "next_records (Suc n) c =
     (case next_record c of
        Inl e \<Rightarrow> Inl e
      | Inr (b, c') \<Rightarrow>
          (case next_records n c' of
             Inl e \<Rightarrow> Inl e
           | Inr (bs, c'') \<Rightarrow> Inr (b # bs, c'')))"

text \<open>The number of calls among the first \<open>n\<close> that returned \<open>True\<close>.\<close>

definition successes :: "nat \<Rightarrow> 'h KoshFCSSearchResultSet \<Rightarrow> nat" where
  "successes n c =
     (case next_records n c of Inl e \<Rightarrow> 0 | Inr (bs, c') \<Rightarrow> length (filter id bs))"

section \<open>Python's string operations\<close>

text \<open>
  A Python \<open>str\<close> is a sequence of code points; a \<open>char\<close> here is a code point below 256.
  On these, \<open>str.split()\<close> with no argument separates at the characters for which
  \<open>str.isspace\<close> holds: 9 to 13, 28 to 32, 133 and 160. \<open>str.lower\<close> maps \<open>A\<close> to \<open>Z\<close>
  and 192 to 222 (but 215, the multiplication sign) to the character 32 places on.
\<close>

definition is_space :: "char \<Rightarrow> bool" where
  "is_space c =
     (let n = (of_char c :: nat)
      in (9 \<le> n \<and> n \<le> 13) \<or> (28 \<le> n \<and> n \<le> 32) \<or> n = 133 \<or> n = 160)"

definition lower_char :: "char \<Rightarrow> char" where
  "lower_char c =
     (let n = (of_char c :: nat)
      in if (65 \<le> n \<and> n \<le> 90) \<or> (192 \<le> n \<and> n \<le> 222 \<and> n \<noteq> 215)
         then char_of (n + 32) else c)"

definition py_lower :: "string \<Rightarrow> string" where
  "py_lower s = map lower_char s"

text \<open>
  \<open>s.split()\<close>: runs of whitespace separate the tokens, and leading and trailing
  whitespace gives no empty token. \<open>tok\<close> is the token being read.
\<close>

fun split_from :: "string \<Rightarrow> string \<Rightarrow> string list" where
  "split_from tok [] = (if tok = [] then [] else [tok])"
| "split_from tok (c # cs) =
     (if is_space c
      then (if tok = [] then split_from [] cs else tok # split_from [] cs)
      else split_from (tok @ [c]) cs)"

definition py_split :: "string \<Rightarrow> string list" where
  "py_split s = split_from [] s"

text \<open>\<open>s.strip(chars)\<close> removes the characters of \<open>chars\<close> from both ends.\<close>

definition py_strip :: "string \<Rightarrow> string \<Rightarrow> string" where
  "py_strip chars s =
     rev (dropWhile (\<lambda>c. c \<in> set chars) (rev (dropWhile (\<lambda>c. c \<in> set chars) s)))"

fun py_join :: "string \<Rightarrow> string list \<Rightarrow> string" where
  "py_join sep [] = []"
| "py_join sep [x] = x"
| "py_join sep (x # y # ys) = x @ sep @ py_join sep (y # ys)"

text \<open>
  \<open>sub in text\<close> and \<open>text.index(sub)\<close>: the position of the first occurrence, and
  \<open>ValueError\<close> from \<open>index\<close> when there is none.
\<close>

fun str_find :: "string \<Rightarrow> string \<Rightarrow> nat option" where
  "str_find sub [] = (if sub = [] then Some 0 else None)"
| "str_find sub (c # cs) =
     (if prefix sub (c # cs) then Some 0 else map_option Suc (str_find sub cs))"

definition str_contains :: "string \<Rightarrow> string \<Rightarrow> bool" where
  "str_contains sub text = (str_find sub text \<noteq> None)"

definition str_index :: "string \<Rightarrow> string \<Rightarrow> error + nat" where
  "str_index sub text =
     (case str_find sub text of None \<Rightarrow> Inl ValueError | Some i \<Rightarrow> Inr i)"

section \<open>The query translator\<close>

text \<open>
  The root of a parsed CQL query: a boolean triple with the value of its operator, a search
  clause with its term, or any other object, given by its \<open>str()\<close>.
\<close>

datatype cql_node =
    CQLTriple string cql_node cql_node
  | CQLSearchClause string
  | CQLOther string

fun cql2cqp :: "cql_node \<Rightarrow> error + string" where
  "cql2cqp (CQLTriple operator l r) =
     Inl (SRUException UNSUPPORTED_BOOLEAN_OPERATOR operator
            (Some (''Unsupported Boolean operator: '' @ operator)))"
| "cql2cqp (CQLSearchClause term) =
     (let terms = py_split (py_lower term)
      in if length terms = 1 then Inr (terms ! 0)
         else Inr (py_join '' '' (map (py_strip [CHR 0x22, CHR 0x27]) terms)))"
| "cql2cqp (CQLOther node) =
     Inl (SRUException CANNOT_PROCESS_QUERY_REASON_UNKNOWN
            (''unknown cql node: '' @ node) None)"

section \<open>The search executor\<close>

text \<open>
  What \<open>search.entries\<close> hands to \<open>elasticsearch_dsl\<close>: the index, the query type, the
  field and the term of the query, the highlight request (field and fragment size), and
  the bounds \<open>(start, stop)\<close> of the slice \<open>find[start:stop]\<close>.
\<close>

record search_request =
  sr_index :: string
  sr_query_type :: string
  sr_field :: string
  sr_query :: string
  sr_highlight :: "(string \<times> nat) option"
  sr_slice :: "(int \<times> int) option"

text \<open>
  The library and the index are parameters. \<open>dsl_query\<close> is the construction of the query
  object, which raises for a query type the library does not know; \<open>execute\<close> is
  \<open>find[start:stop].execute()\<close>, which returns the raw hits or raises, and may change the
  state of the backend; \<open>hit_highlighted\<close> and \<open>hit_plain\<close> build the dictionary of one hit
  in the two comprehensions, and raise where a key is missing or the creation date does
  not parse.
\<close>

record ('raw, 'hit, 'st) backend =
  dsl_query :: "string \<Rightarrow> error option"
  execute :: "search_request \<Rightarrow> 'st \<Rightarrow> (error + 'raw list) \<times> 'st"
  hit_highlighted :: "string \<Rightarrow> 'raw \<Rightarrow> error + 'hit"
  hit_plain :: "'raw \<Rightarrow> error + 'hit"

text \<open>A list comprehension whose element expression may raise.\<close>

fun comprehension :: "('a \<Rightarrow> error + 'b) \<Rightarrow> 'a list \<Rightarrow> error + 'b list" where
  "comprehension f [] = Inr []"
| "comprehension f (x # xs) =
     (case f x of
        Inl e \<Rightarrow> Inl e
      | Inr y \<Rightarrow> (case comprehension f xs of Inl e \<Rightarrow> Inl e | Inr ys \<Rightarrow> Inr (y # ys)))"

text \<open>The query object \<open>find\<close> as it stands when the \<open>try\<close> block is entered.\<close>

definition entries_find :: "string \<Rightarrow> string \<Rightarrow> string \<Rightarrow> string \<Rightarrow> bool \<Rightarrow> search_request" where
  "entries_find pool field query query_type highlight =
     (let find = \<lparr> sr_index = pool, sr_query_type = query_type,
                   sr_field = (if field \<noteq> ''id'' then field else ''_id''),
                   sr_query = query, sr_highlight = None, sr_slice = None \<rparr>
      in if highlight \<and> field \<noteq> ''id''
         then find\<lparr>sr_highlight := Some (field, 100000)\<rparr>
         else find)"

text \<open>
  \<open>search.entries\<close>. An exception of the query construction, which is outside the \<open>try\<close>
  block, propagates; every exception inside it gives the empty list.
\<close>

definition entries ::
  "('raw, 'hit, 'st) backend \<Rightarrow> string \<Rightarrow> string \<Rightarrow> string \<Rightarrow> string \<Rightarrow> int \<Rightarrow> int \<Rightarrow> bool
     \<Rightarrow> 'st \<Rightarrow> (error + 'hit list) \<times> 'st" where
  "entries be pool field query query_type sz offset highlight st =
     (case dsl_query be query_type of
        Some e \<Rightarrow> (Inl e, st)
      | None \<Rightarrow>
          (let find = entries_find pool field query query_type highlight
           in case execute be (find\<lparr>sr_slice := Some (offset, sz)\<rparr>) st of
                (Inl e, st') \<Rightarrow> (Inr [], st')
              | (Inr res, st') \<Rightarrow>
                  (if highlight \<and> field \<noteq> ''id''
                   then (case comprehension (hit_highlighted be field) res of
                           Inl e \<Rightarrow> (Inr [], st')
                         | Inr hs \<Rightarrow> (Inr hs, st'))
                   else (case comprehension (hit_plain be) res of
                           Inl e \<Rightarrow> (Inr [], st')
                         | Inr hs \<Rightarrow> (Inr hs, st')))))"

text \<open>
  An index held as a list of documents, for running \<open>entries\<close> on concrete input. The
  library turns the slice \<open>[start:stop]\<close> into \<open>from = start\<close> and
  \<open>size = max(0, stop - start)\<close>, and refuses negative bounds with \<open>ValueError\<close>.
\<close>

definition list_backend :: "'d list \<Rightarrow> ('d, 'd, nat) backend" where
  "list_backend docs =
     \<lparr> dsl_query = (\<lambda>qt. None),
       execute = (\<lambda>rq calls.
         (case sr_slice rq of
            None \<Rightarrow> (Inr (take 10 docs), Suc calls)
          | Some (start, stop) \<Rightarrow>
              (if start < 0 \<or> stop < 0 then (Inl ValueError, calls)
               else (Inr (take (nat (max 0 (stop - start))) (drop (nat start) docs)),
                     Suc calls)))),
       hit_highlighted = (\<lambda>field d. Inr d),
       hit_plain = (\<lambda>d. Inr d) \<rparr>"

text \<open>A backend whose every execution raises.\<close>

definition failing_backend :: "(unit, unit, nat) backend" where
  "failing_backend =
     \<lparr> dsl_query = (\<lambda>qt. None),
       execute = (\<lambda>rq calls. (Inl (BackendError ''connection refused''), Suc calls)),
       hit_highlighted = (\<lambda>field d. Inr d),
       hit_plain = (\<lambda>d. Inr d) \<rparr>"

section \<open>The search engine\<close>

text \<open>
  What \<open>KoshFCSEndpointSearchEngine.search\<close> reads of the request, and the fields of the
  engine. \<open>_parse_params\<close> only logs, and is left out. The \<open>try\<close> block around
  \<open>search.entries\<close> turns an exception that \<open>entries\<close> lets through into \<open>results = None\<close>;
  the result set is built without the request, so with the window of 250 records.
\<close>

record search_rq = SRURequest +
  get_query_type :: string
  get_query :: cql_node

record engine =
  lexicon_pool :: string
  lexicon_uid :: string
  field :: string
  query_type :: string

definition search ::
  "('raw, 'hit, 'st) backend \<Rightarrow> engine \<Rightarrow> search_rq \<Rightarrow> 'st
     \<Rightarrow> (error + 'hit KoshFCSSearchResultSet) \<times> 'st" where
  "search be self request st =
     (if get_query_type request = ''cql'' then
        (case cql2cqp (get_query request) of
           Inl e \<Rightarrow> (Inl e, st)
         | Inr query \<Rightarrow>
             (case entries be (lexicon_pool self) (field self) query (query_type self)
                     (get_maximum_records request) 0 True st of
                (Inl ex, st') \<Rightarrow> (Inr (init_result_set None None), st')
              | (Inr res, st') \<Rightarrow> (Inr (init_result_set (Some res) None), st')))
      else
        (Inl (SRUException CANNOT_PROCESS_QUERY_REASON_UNKNOWN
                (''Queries with queryType '' @ [CHR 0x27] @ get_query_type request @ [CHR 0x27]
                   @ '' are not supported by this CLARIN-FCS Endpoint.'') None), st))"

section \<open>The highlight loop of write_record\<close>

definition marker_s :: string where
  "marker_s = ''{{{#!HLS!#}}}''"

definition marker_e :: string where
  "marker_e = ''{{{#!HLE!#}}}''"

text \<open>\<open>text[:i] + text[i + len(m):]\<close>\<close>

definition del_marker :: "nat \<Rightarrow> string \<Rightarrow> string \<Rightarrow> string" where
  "del_marker i m text = take i text @ drop (i + length m) text"

lemma str_find_bound: "str_find sub t = Some i \<Longrightarrow> i + length sub \<le> length t"
proof (induction t arbitrary: i)
  case Nil
  then show ?case by (simp split: if_splits)
next
  case (Cons c cs)
  show ?case
  proof (cases "prefix sub (c # cs)")
    case True
    with Cons.prems have "i = 0" by simp
    moreover from True have "length sub \<le> length (c # cs)" by (rule prefix_length_le)
    ultimately show ?thesis by simp
  next
    case False
    with Cons.prems obtain j where "str_find sub cs = Some j" "i = Suc j" by auto
    with Cons.IH show ?thesis by fastforce
  qed
qed

lemma length_del_marker_le: "length (del_marker i m t) \<le> length t"
  by (simp add: del_marker_def)

text \<open>
  The loop, from \<open>hits = []\<close> to the end of the \<open>while\<close>: the state is \<open>text\<close> and \<open>hits\<close>,
  \<open>start\<close> and \<open>end\<close> are the positions \<open>index\<close> returns.
\<close>

function write_record_loop ::
  "string \<Rightarrow> (int \<times> int) list \<Rightarrow> error + (string \<times> (int \<times> int) list)" where
  "write_record_loop text hits =
     (if str_contains marker_s text \<and> str_contains marker_e text then
        (case str_index marker_s text of
           Inl e \<Rightarrow> Inl e
         | Inr start \<Rightarrow>
             (case str_index marker_e (del_marker start marker_s text) of
                Inl e \<Rightarrow> Inl e
              | Inr end' \<Rightarrow>
                  write_record_loop
                    (del_marker end' marker_e (del_marker start marker_s text))
                    (hits @ [(int start, int end')])))
      else Inr (text, hits))"
  by pat_completeness auto
termination
proof (relation "measure (\<lambda>(text, hits). length text)", goal_cases)
  case 1
  show ?case by simp
next
  case (2 t hits start end')
  from 2(2) have "start + length marker_s \<le> length t"
    by (auto simp: str_index_def split: option.splits dest: str_find_bound)
  then have "length (del_marker start marker_s t) < length t"
    by (simp add: del_marker_def marker_s_def)
  moreover have "length (del_marker end' marker_e (del_marker start marker_s t))
      \<le> length (del_marker start marker_s t)"
    by (rule length_del_marker_le)
  ultimately show ?case by simp
qed

definition write_record_hits :: "string \<Rightarrow> error + (string \<times> (int \<times> int) list)" where
  "write_record_hits text = write_record_loop text []"

declare write_record_loop.simps [simp del]

text \<open>
  Highlighted text with well-formed markers, as the highlighter is to deliver it: pairs of
  ordinary text \<open>p\<close> and highlighted text \<open>h\<close>, each written \<open>p\<close>, start marker, \<open>h\<close>,
  end marker, one pair after the other, and ordinary text \<open>tail\<close> at the end. \<open>plain\<close> is
  the same text without the markers, and \<open>spans\<close> the positions of the highlighted parts
  in it, counted from \<open>off\<close>.
\<close>

fun marked :: "(string \<times> string) list \<Rightarrow> string \<Rightarrow> string" where
  "marked [] tail = tail"
| "marked ((p, h) # segs) tail = p @ marker_s @ h @ marker_e @ marked segs tail"

fun plain :: "(string \<times> string) list \<Rightarrow> string \<Rightarrow> string" where
  "plain [] tail = tail"
| "plain ((p, h) # segs) tail = p @ h @ plain segs tail"

fun spans :: "nat \<Rightarrow> (string \<times> string) list \<Rightarrow> (int \<times> int) list" where
  "spans off [] = []"
| "spans off ((p, h) # segs) =
     (int (off + length p), int (off + length p + length h))
       # spans (off + length p + length h) segs"

section \<open>Properties of the result set\<close>

lemma next_records_run:
  "results c = Some hs \<Longrightarrow>
   next_records n c =
     Inr (replicate (min n (nat (min (int (length hs)) (maximum_records c) - current_record_cursor c))) True
            @ replicate (n - nat (min (int (length hs)) (maximum_records c) - current_record_cursor c)) False,
          c\<lparr>current_record_cursor := current_record_cursor c
               + int (min n (nat (min (int (length hs)) (maximum_records c) - current_record_cursor c)))\<rparr>)"
proof (induction n arbitrary: c)
  case 0
  then show ?case by simp
next
  case (Suc n)
  let ?b = "min (int (length hs)) (maximum_records c)"
  show ?case
  proof (cases "current_record_cursor c < ?b")
    case True
    let ?c' = "c\<lparr>current_record_cursor := current_record_cursor c + 1\<rparr>"
    from True Suc.prems have step: "next_record c = Inr (True, ?c')"
      by (simp add: next_record_def py_len_def)
    have r: "results ?c' = Some hs" using Suc.prems by simp
    from True have k: "nat (?b - current_record_cursor c) = Suc (nat (?b - (current_record_cursor c + 1)))"
      by linarith
    show ?thesis
      using Suc.IH [OF r] step k by (simp add: algebra_simps)
  next
    case False
    from False Suc.prems have step: "next_record c = Inr (False, c)"
      by (simp add: next_record_def py_len_def)
    from False have k: "nat (?b - current_record_cursor c) = 0" by linarith
    show ?thesis
      using Suc.IH [OF Suc.prems] step k by (simp add: replicate_append_same)
  qed
qed

lemma init_result_set_fields:
  "results (init_result_set res rq) = res"
  "current_record_cursor (init_result_set res rq) = start_record (init_result_set res rq) - 1"
  "maximum_records (init_result_set res rq)
     = start_record (init_result_set res rq) - 1 + record_count (init_result_set res rq)"
  by (simp_all add: init_result_set_def Let_def split: option.splits)

lemma total_record_count_nonempty:
  "hs \<noteq> [] \<Longrightarrow> get_total_record_count (init_result_set (Some hs) rq) = int (length hs)"
  by (simp add: get_total_record_count_def init_result_set_fields truthy_def)

text \<open>
  C2, on the code: a result set built from the empty hit list, which is a present list of
  length 0, reports the total record count \<open>-1\<close> and not \<open>0\<close>, because the test
  \<open>if self.results\<close> is false for the empty list as it is for \<open>None\<close>.
\<close>

theorem total_record_count_empty_list:
  "get_total_record_count (init_result_set (Some ([] :: unit list)) None) = - 1"
  by (simp add: get_total_record_count_def init_result_set_def truthy_def)

text \<open>
  C3, as stated, fails: for a hit list of length 1 and a request with start record 5 and
  3 requested records, \<open>min(N, M) - (startRecord - 1)\<close> is \<open>-3\<close>, and no call of
  \<open>next_record\<close> succeeds.
\<close>

theorem next_record_count_counterexample:
  "successes 10 (init_result_set (Some [()])
       (Some \<lparr>get_start_record = 5, get_maximum_records = 3\<rparr>)) = 0
   \<and> int (successes 10 (init_result_set (Some [()])
       (Some \<lparr>get_start_record = 5, get_maximum_records = 3\<rparr>)))
     \<noteq> min (int (length [()]))
         (maximum_records (init_result_set (Some [()])
            (Some \<lparr>get_start_record = 5, get_maximum_records = 3\<rparr>)))
       - (start_record (init_result_set (Some [()])
            (Some \<lparr>get_start_record = 5, get_maximum_records = 3\<rparr>)) - 1)"
  by (simp add: successes_def init_result_set_def next_records_run)

text \<open>
  C3, amended: for a result set built from a present hit list of length \<open>N\<close>, with
  \<open>M = maximum_records = start_record - 1 + record_count\<close>, the first
  \<open>k = max(0, min(N, M) - (start_record - 1))\<close> calls of \<open>next_record\<close> return \<open>True\<close> and
  every later call returns \<open>False\<close>: of any \<open>n\<close> calls in a row, the first \<open>min n k\<close>
  succeed and the other \<open>n - k\<close> fail, and none raises.
\<close>

theorem next_record_success_count:
  "(let c = init_result_set (Some hs) rq;
        k = nat (min (int (length hs)) (maximum_records c) - (start_record c - 1))
    in maximum_records c = start_record c - 1 + record_count c
       \<and> (\<exists>c'. next_records n c
                  = Inr (replicate (min n k) True @ replicate (n - k) False, c'))
       \<and> successes n c = min n k)"
proof -
  let ?c = "init_result_set (Some hs) rq"
  have r: "results ?c = Some hs" by (simp add: init_result_set_fields)
  show ?thesis
    unfolding Let_def successes_def next_records_run [OF r] init_result_set_fields
    by (simp add: init_result_set_fields(3) [symmetric])
qed

text \<open>
  C9: on a result set built with \<open>results = None\<close>, \<open>next_record\<close> raises \<open>TypeError\<close> from
  \<open>len(None)\<close>, while \<open>get_total_record_count\<close> returns \<open>-1\<close> and \<open>get_record_count\<close>
  returns \<open>0\<close>.
\<close>

theorem next_record_absent_results:
  "next_record (init_result_set (None :: 'h list option) rq) = Inl TypeError
   \<and> get_total_record_count (init_result_set (None :: 'h list option) rq) = - 1
   \<and> get_record_count (init_result_set (None :: 'h list option) rq) = 0"
  by (simp add: next_record_def py_len_def get_total_record_count_def get_record_count_def
      init_result_set_fields truthy_def)

section \<open>Properties of the search executor\<close>

text \<open>
  C1, on the code: \<open>entries\<close> slices the query with \<open>find[offset:size]\<close>, so \<open>size\<close> is the
  end of the window and not its length. With 20 documents, \<open>offset = 5\<close> and
  \<open>size = 10\<close>, the request carries the slice bounds \<open>(5, 10)\<close> and the hits are the five
  documents 5 to 9, not the ten documents 5 to 14.
\<close>

theorem entries_slice_offset_window:
  "entries (list_backend [0, 1, 2, 3, 4, 5, 6, 7, 8, 9, 10, 11, 12, 13, 14, 15, 16, 17, 18, 19 :: int])
      ''pool'' ''xml'' ''dog'' ''term'' 10 5 True 0 = (Inr [5, 6, 7, 8, 9], 1)"
  by (simp add: entries_def list_backend_def entries_find_def)

text \<open>The result set \<open>search\<close> returns for a query it could translate.\<close>

lemma search_wraps_entries:
  assumes "get_query_type request = ''cql''" and "cql2cqp (get_query request) = Inr q"
  shows "search be self request st =
    (Inr (init_result_set
            (case fst (entries be (lexicon_pool self) (field self) q (query_type self)
                         (get_maximum_records request) 0 True st) of
               Inl ex \<Rightarrow> None | Inr res \<Rightarrow> Some res) None),
     snd (entries be (lexicon_pool self) (field self) q (query_type self)
            (get_maximum_records request) 0 True st))"
  using assms by (simp add: search_def split: prod.splits sum.splits)

text \<open>
  C4: when the execution of the sliced query raises, \<open>entries\<close> returns the empty list and
  does not propagate the exception, and the result set that wraps what \<open>entries\<close>
  returned, as \<open>search\<close> builds it, reports the total record count \<open>-1\<close>.
\<close>

theorem entries_backend_exception:
  assumes "dsl_query be qt = None"
    and "execute be ((entries_find pool fld q qt hl)\<lparr>sr_slice := Some (offset, sz)\<rparr>) st
           = (Inl e, st')"
  shows "entries be pool fld q qt sz offset hl st = (Inr [], st')
    \<and> get_total_record_count
        (init_result_set
           (case fst (entries be pool fld q qt sz offset hl st) of
              Inl ex \<Rightarrow> None | Inr res \<Rightarrow> Some res) None) = - 1"
proof -
  have "entries be pool fld q qt sz offset hl st = (Inr [], st')"
    using assms by (simp add: entries_def Let_def)
  then show ?thesis
    by (simp add: get_total_record_count_def init_result_set_fields truthy_def)
qed

theorem entries_backend_exception_witness:
  "entries failing_backend ''pool'' ''xml'' ''dog'' ''term'' 250 0 True 0 = (Inr [], 1)
   \<and> get_total_record_count
        (init_result_set
           (case fst (entries failing_backend ''pool'' ''xml'' ''dog'' ''term'' 250 0 True 0) of
              Inl ex \<Rightarrow> None | Inr res \<Rightarrow> Some res) None) = - 1"
proof -
  have h1: "dsl_query failing_backend ''term'' = None"
    by (simp add: failing_backend_def)
  have h2: "execute failing_backend
      ((entries_find ''pool'' ''xml'' ''dog'' ''term'' True)\<lparr>sr_slice := Some (0, 250)\<rparr>) 0
      = (Inl (BackendError ''connection refused''), 1)"
    by (simp add: failing_backend_def)
  show ?thesis by (rule entries_backend_exception [OF h1 h2])
qed

section \<open>Properties of the query translator\<close>

text \<open>
  C6: a boolean triple, whatever its operator, is refused with the diagnostic for an
  unsupported boolean operator, which carries the operator; any node that is neither a
  triple nor a search clause is refused with the diagnostic for a query that cannot be
  processed. In both cases \<open>search\<close> raises that exception and leaves the backend as it
  was: no query is executed.
\<close>

theorem cql2cqp_rejects:
  "cql2cqp (CQLTriple operator l r)
     = Inl (SRUException UNSUPPORTED_BOOLEAN_OPERATOR operator
              (Some (''Unsupported Boolean operator: '' @ operator)))
   \<and> cql2cqp (CQLOther node)
     = Inl (SRUException CANNOT_PROCESS_QUERY_REASON_UNKNOWN (''unknown cql node: '' @ node) None)
   \<and> search be self (request\<lparr>get_query_type := ''cql'', get_query := CQLTriple operator l r\<rparr>) st
     = (Inl (SRUException UNSUPPORTED_BOOLEAN_OPERATOR operator
              (Some (''Unsupported Boolean operator: '' @ operator))), st)
   \<and> search be self (request\<lparr>get_query_type := ''cql'', get_query := CQLOther node\<rparr>) st
     = (Inl (SRUException CANNOT_PROCESS_QUERY_REASON_UNKNOWN
              (''unknown cql node: '' @ node) None), st)"
  by (simp add: search_def)

section \<open>Properties of the string operations\<close>

text \<open>
  The tokens of \<open>split\<close> are the non-empty runs of characters that are not whitespace, in
  order; \<open>strip\<close> removes only characters of its argument, from the two ends, and leaves
  none of them at either end.
\<close>

lemma concat_split_from: "concat (split_from tok s) = tok @ filter (\<lambda>c. \<not> is_space c) s"
  by (induction s arbitrary: tok) auto

lemma py_strip_decomp:
  "\<exists>a b. s = a @ py_strip q s @ b \<and> set a \<subseteq> set q \<and> set b \<subseteq> set q"
proof -
  let ?P = "\<lambda>c. c \<in> set q"
  let ?m = "dropWhile ?P s"
  have 1: "s = takeWhile ?P s @ ?m" by simp
  have "?m = rev (takeWhile ?P (rev ?m) @ dropWhile ?P (rev ?m))"
    by (simp only: takeWhile_dropWhile_id rev_rev_ident)
  also have "\<dots> = rev (dropWhile ?P (rev ?m)) @ rev (takeWhile ?P (rev ?m))"
    by (rule rev_append)
  finally have 2: "?m = py_strip q s @ rev (takeWhile ?P (rev ?m))"
    by (simp only: py_strip_def)
  have a: "set (takeWhile ?P s) \<subseteq> set q" by (auto dest: set_takeWhileD)
  have b: "set (rev (takeWhile ?P (rev ?m))) \<subseteq> set q" by (auto dest: set_takeWhileD)
  from 1 2 have "s = takeWhile ?P s @ py_strip q s @ rev (takeWhile ?P (rev ?m))" by simp
  with a b show ?thesis by blast
qed

lemma split_from_tokens:
  "\<forall>c\<in>set tok. \<not> is_space c \<Longrightarrow>
     \<forall>t \<in> set (split_from tok s). t \<noteq> [] \<and> (\<forall>c\<in>set t. \<not> is_space c)"
proof (induction s arbitrary: tok)
  case Nil
  then show ?case by simp
next
  case (Cons c cs)
  have e: "\<forall>c\<in>set ([]::string). \<not> is_space c" by simp
  show ?case
  proof (cases "is_space c")
    case True
    with Cons.IH [OF e] Cons.prems show ?thesis by simp
  next
    case False
    with Cons.prems have "\<forall>x\<in>set (tok @ [c]). \<not> is_space x" by simp
    from Cons.IH [OF this] False show ?thesis by simp
  qed
qed

lemma py_strip_ends:
  assumes "py_strip q s \<noteq> []"
  shows "hd (py_strip q s) \<notin> set q \<and> last (py_strip q s) \<notin> set q"
proof -
  let ?P = "\<lambda>c. c \<in> set q"
  let ?m = "dropWhile ?P s"
  let ?r = "dropWhile ?P (rev ?m)"
  from assms have r: "?r \<noteq> []" by (simp add: py_strip_def)
  have m: "?m \<noteq> []"
  proof
    assume "?m = []"
    then have "?r = []" by (metis dropWhile.simps(1) rev.simps(1))
    with r show False by simp
  qed
  have "last (py_strip q s) = hd ?r" using r by (simp add: py_strip_def last_rev)
  moreover have "\<not> ?P (hd ?r)" using r by (rule hd_dropWhile)
  moreover have "hd (py_strip q s) = last ?r" using r by (simp add: py_strip_def hd_rev)
  moreover have "last ?r = last (rev ?m)" using r by (metis last_appendR takeWhile_dropWhile_id)
  moreover have "last (rev ?m) = hd ?m" using m by (simp add: last_rev)
  moreover have "\<not> ?P (hd ?m)" using m by (rule hd_dropWhile)
  ultimately show ?thesis by simp
qed

text \<open>
  C5: \<open>_cql2cqp\<close> on a search clause lowercases the term and splits it at whitespace. When
  the result is one token, that token is returned as it is: it is the lowercased term
  without its whitespace, quote characters included. Otherwise every token is stripped of
  the single and double quotes at its two ends and the tokens are joined with one space;
  \<open>"  Cat   Dog  "\<close> gives \<open>"cat dog"\<close>.
\<close>

theorem cql2cqp_search_clause:
  "(\<forall>tok. py_split (py_lower term) = [tok] \<longrightarrow>
       cql2cqp (CQLSearchClause term) = Inr tok
       \<and> tok = filter (\<lambda>c. \<not> is_space c) (map lower_char term))
   \<and> (length (py_split (py_lower term)) \<noteq> 1 \<longrightarrow>
       cql2cqp (CQLSearchClause term)
         = Inr (py_join '' '' (map (py_strip [CHR 0x22, CHR 0x27]) (py_split (py_lower term)))))
   \<and> cql2cqp (CQLSearchClause ''  Cat   Dog  '') = Inr ''cat dog''"
proof (intro conjI allI impI)
  fix tok
  assume t: "py_split (py_lower term) = [tok]"
  then show "cql2cqp (CQLSearchClause term) = Inr tok" by simp
  from concat_split_from [of "[]" "py_lower term"] t
  show "tok = filter (\<lambda>c. \<not> is_space c) (map lower_char term)"
    by (simp add: py_split_def py_lower_def)
next
  assume "length (py_split (py_lower term)) \<noteq> 1"
  then show "cql2cqp (CQLSearchClause term)
      = Inr (py_join '' '' (map (py_strip [CHR 0x22, CHR 0x27]) (py_split (py_lower term))))"
    by simp
next
  show "cql2cqp (CQLSearchClause ''  Cat   Dog  '') = Inr ''cat dog''" by code_simp
qed

theorem cql2cqp_search_clause_witness:
  "py_split (py_lower (CHR 0x22 # ''Cat'' @ [CHR 0x22])) = [CHR 0x22 # ''cat'' @ [CHR 0x22]]
   \<and> cql2cqp (CQLSearchClause (CHR 0x22 # ''Cat'' @ [CHR 0x22])) = Inr (CHR 0x22 # ''cat'' @ [CHR 0x22])
   \<and> length (py_split (py_lower (''  Cat   '' @ CHR 0x22 # ''Dog'' @ [CHR 0x22]))) \<noteq> 1
   \<and> cql2cqp (CQLSearchClause (''  Cat   '' @ CHR 0x22 # ''Dog'' @ [CHR 0x22])) = Inr ''cat dog''"
proof -
  have h1: "py_split (py_lower (CHR 0x22 # ''Cat'' @ [CHR 0x22])) = [CHR 0x22 # ''cat'' @ [CHR 0x22]]"
    by code_simp
  have h2: "length (py_split (py_lower (''  Cat   '' @ CHR 0x22 # ''Dog'' @ [CHR 0x22]))) \<noteq> 1"
    by code_simp
  have e2: "py_join '' '' (map (py_strip [CHR 0x22, CHR 0x27])
      (py_split (py_lower (''  Cat   '' @ CHR 0x22 # ''Dog'' @ [CHR 0x22])))) = ''cat dog''"
    by code_simp
  from cql2cqp_search_clause [of "CHR 0x22 # ''Cat'' @ [CHR 0x22]"] h1
  have r1: "cql2cqp (CQLSearchClause (CHR 0x22 # ''Cat'' @ [CHR 0x22])) = Inr (CHR 0x22 # ''cat'' @ [CHR 0x22])"
    by blast
  from cql2cqp_search_clause [of "''  Cat   '' @ CHR 0x22 # ''Dog'' @ [CHR 0x22]"] h2
  have "cql2cqp (CQLSearchClause (''  Cat   '' @ CHR 0x22 # ''Dog'' @ [CHR 0x22]))
      = Inr (py_join '' '' (map (py_strip [CHR 0x22, CHR 0x27])
          (py_split (py_lower (''  Cat   '' @ CHR 0x22 # ''Dog'' @ [CHR 0x22])))))"
    by blast
  with e2 have r2: "cql2cqp (CQLSearchClause (''  Cat   '' @ CHR 0x22 # ''Dog'' @ [CHR 0x22])) = Inr ''cat dog''"
    by simp
  from h1 r1 h2 r2 show ?thesis by blast
qed

section \<open>Properties of the highlight loop\<close>

text \<open>
  \<open>sub in text\<close> holds when \<open>text\<close> is \<open>u + sub + v\<close> for some \<open>u\<close> and \<open>v\<close>, and
  \<open>index\<close> gives the length of the shortest such \<open>u\<close>.
\<close>

lemma str_contains_iff: "str_contains sub t \<longleftrightarrow> (\<exists>u v. t = u @ sub @ v)"
proof (induction t)
  case Nil
  then show ?case by (simp add: str_contains_def)
next
  case (Cons c cs)
  show ?case
  proof (cases "prefix sub (c # cs)")
    case True
    then obtain v where "c # cs = sub @ v" by (auto simp: prefix_def)
    then have "c # cs = [] @ sub @ v" by simp
    then have "\<exists>u v. c # cs = u @ sub @ v" by blast
    with True show ?thesis by (simp add: str_contains_def)
  next
    case False
    have "(\<exists>u v. c # cs = u @ sub @ v) \<longleftrightarrow> (\<exists>u v. cs = u @ sub @ v)"
    proof
      assume "\<exists>u v. c # cs = u @ sub @ v"
      then obtain u v where uv: "c # cs = u @ sub @ v" by blast
      show "\<exists>u v. cs = u @ sub @ v"
      proof (cases u)
        case Nil
        with uv have "prefix sub (c # cs)" by (simp add: prefix_def)
        with False show ?thesis by simp
      next
        case (Cons x u')
        with uv have "cs = u' @ sub @ v" by simp
        then show ?thesis by blast
      qed
    next
      assume "\<exists>u v. cs = u @ sub @ v"
      then obtain u v where "cs = u @ sub @ v" by blast
      then have "c # cs = (c # u) @ sub @ v" by simp
      then show "\<exists>u v. c # cs = u @ sub @ v" by blast
    qed
    with False Cons.IH show ?thesis by (simp add: str_contains_def)
  qed
qed

lemma str_find_Some_decomp:
  "str_find sub t = Some i \<Longrightarrow> \<exists>u v. t = u @ sub @ v \<and> length u = i"
proof (induction t arbitrary: i)
  case Nil
  then show ?case by (simp split: if_splits)
next
  case (Cons c cs)
  show ?case
  proof (cases "prefix sub (c # cs)")
    case True
    then obtain v where "c # cs = [] @ sub @ v" by (auto simp: prefix_def)
    moreover from True Cons.prems have "i = 0" by simp
    ultimately show ?thesis by (metis list.size(3))
  next
    case False
    with Cons.prems obtain j where j: "str_find sub cs = Some j" "i = Suc j" by auto
    from Cons.IH [OF j(1)] obtain u v where "cs = u @ sub @ v" "length u = j" by blast
    with j(2) have "c # cs = (c # u) @ sub @ v \<and> length (c # u) = i" by simp
    then show ?thesis by blast
  qed
qed

lemma str_find_first:
  "str_find sub t = Some i \<Longrightarrow> t = u @ sub @ v \<Longrightarrow> i \<le> length u"
proof (induction t arbitrary: i u)
  case Nil
  then show ?case by (simp split: if_splits)
next
  case (Cons c cs)
  show ?case
  proof (cases "prefix sub (c # cs)")
    case True
    with Cons.prems(1) show ?thesis by simp
  next
    case False
    with Cons.prems(1) obtain j where j: "str_find sub cs = Some j" "i = Suc j" by auto
    from False Cons.prems(2) have "u \<noteq> []" by (auto simp: prefix_def)
    then obtain x u' where u: "u = x # u'" by (cases u) auto
    with Cons.prems(2) have "cs = u' @ sub @ v" by simp
    from Cons.IH [OF j(1) this] j(2) u show ?thesis by simp
  qed
qed

text \<open>
  No proper suffix of one marker begins the other or itself: two occurrences of markers
  in a text never overlap. So removing a marker neither destroys nor splits an occurrence
  of the other one, and a marker put after a text that has none is its first occurrence.
\<close>

lemma marker_suffix_no_prefix:
  assumes "M = marker_s \<or> M = marker_e" and "M' = marker_s \<or> M' = marker_e"
    and "0 < k" and "k < 13"
  shows "\<not> prefix (drop k M) (M' @ r)"
proof -
  from assms(3,4) consider "k = 1" | "k = 2" | "k = 3" | "k = 4" | "k = 5" | "k = 6"
    | "k = 7" | "k = 8" | "k = 9" | "k = 10" | "k = 11" | "k = 12"
    by atomize_elim arith
  then show ?thesis
    using assms(1,2) by cases (auto simp: marker_s_def marker_e_def)
qed

lemma marker_overlap:
  assumes M: "M = marker_s \<or> M = marker_e" and M': "M' = marker_s \<or> M' = marker_e"
    and p: "prefix M (a @ M' @ r)" and a: "a \<noteq> []"
  shows "prefix M a"
proof -
  from p consider "prefix M a" | us where "M = a @ us" "prefix us (M' @ r)"
    by (auto simp: prefix_append)
  then show ?thesis
  proof cases
    case 1
    then show ?thesis .
  next
    case 2
    from 2(1) have us: "us = drop (length a) M" by simp
    from M have len: "length M = 13" by (auto simp: marker_s_def marker_e_def)
    with 2(1) have le: "length a \<le> 13" by (metis length_append le_add1)
    show ?thesis
    proof (cases "length a = 13")
      case True
      with 2(1) len have "us = []" by (metis add_cancel_right_right length_0_conv length_append)
      with 2(1) show ?thesis by simp
    next
      case False
      with le a have "0 < length a" "length a < 13" by simp_all
      from marker_suffix_no_prefix [OF M M' this] 2(2) us show ?thesis by simp
    qed
  qed
qed

lemma str_find_first_marker:
  assumes M: "M = marker_s \<or> M = marker_e" and n: "\<not> str_contains M a"
  shows "str_find M (a @ M @ r) = Some (length a)"
  using n
proof (induction a)
  case Nil
  from M show ?case by (auto simp: marker_s_def marker_e_def)
next
  case (Cons c a')
  from Cons.prems have np: "\<not> prefix M (c # a')" and nc: "\<not> str_contains M a'"
    by (auto simp: str_contains_def split: if_splits)
  have "\<not> prefix M ((c # a') @ M @ r)"
    using marker_overlap [OF M M, of "c # a'" r] np by blast
  with Cons.IH [OF nc] show ?case by simp
qed

lemma del_marker_append: "del_marker (length a) m (a @ m @ b) = a @ b"
  by (simp add: del_marker_def)

lemma markers_differ: "marker_s \<noteq> marker_e"
  by (simp add: marker_s_def marker_e_def)

lemma marker_survives:
  assumes M: "M = marker_s \<or> M = marker_e" and M': "M' = marker_s \<or> M' = marker_e"
    and ne: "M \<noteq> M'" and c: "str_contains M' (a @ M @ b)"
  shows "str_contains M' (a @ b)"
proof -
  from M M' have len: "length M = length M'" by (auto simp: marker_s_def marker_e_def)
  from c obtain u v where uv: "a @ M @ b = u @ M' @ v" by (auto simp: str_contains_iff)
  from append_eq_append_conv2 [THEN iffD1, OF this]
  consider w where "a = u @ w" "w @ M @ b = M' @ v" | w where "a @ w = u" "M @ b = w @ M' @ v"
    by blast
  then show ?thesis
  proof cases
    case 1
    show ?thesis
    proof (cases "w = []")
      case True
      with 1(2) len have "M = M'" by simp
      with ne show ?thesis by simp
    next
      case False
      from 1(2) have "prefix M' (w @ M @ b)" by (rule prefixI)
      from marker_overlap [OF M' M this False] obtain w' where "w = M' @ w'"
        by (auto simp: prefix_def)
      with 1(1) have "a @ b = u @ M' @ (w' @ b)" by simp
      then show ?thesis unfolding str_contains_iff by blast
    qed
  next
    case 2
    show ?thesis
    proof (cases "w = []")
      case True
      with 2(2) len have "M = M'" by simp
      with ne show ?thesis by simp
    next
      case False
      from 2(2) [symmetric] have "prefix M (w @ M' @ v)" by (rule prefixI)
      from marker_overlap [OF M M' this False] obtain w' where w: "w = M @ w'"
        by (auto simp: prefix_def)
      with 2(2) have "b = w' @ M' @ v" by simp
      then have "a @ b = (a @ w') @ M' @ v" by simp
      then show ?thesis unfolding str_contains_iff by blast
    qed
  qed
qed

lemma write_record_loop_exit:
  "\<not> (str_contains marker_s t \<and> str_contains marker_e t) \<Longrightarrow> write_record_loop t hits = Inr (t, hits)"
  by (subst write_record_loop.simps) auto

lemma write_record_loop_iter:
  assumes "str_contains marker_s t" and "str_contains marker_e t"
    and "str_find marker_s t = Some i"
    and "str_find marker_e (del_marker i marker_s t) = Some j"
  shows "write_record_loop t hits
    = write_record_loop (del_marker j marker_e (del_marker i marker_s t)) (hits @ [(int i, int j)])"
  using assms by (subst write_record_loop.simps) (simp add: str_index_def)

lemma write_record_loop_step:
  assumes s: "str_contains marker_s t" and e: "str_contains marker_e t"
  shows "\<exists>a b c d. t = a @ marker_s @ b
      \<and> (\<forall>a' b'. t = a' @ marker_s @ b' \<longrightarrow> length a \<le> length a')
      \<and> a @ b = c @ marker_e @ d
      \<and> (\<forall>c' d'. a @ b = c' @ marker_e @ d' \<longrightarrow> length c \<le> length c')
      \<and> write_record_loop t hits
          = write_record_loop (c @ d) (hits @ [(int (length a), int (length c))])"
proof -
  from s obtain i where i: "str_find marker_s t = Some i" by (auto simp: str_contains_def)
  from str_find_Some_decomp [OF i] obtain a b where ab: "t = a @ marker_s @ b" "length a = i"
    by blast
  have first_s: "\<forall>a' b'. t = a' @ marker_s @ b' \<longrightarrow> length a \<le> length a'"
    using str_find_first [OF i] ab(2) by blast
  from ab have del1: "del_marker i marker_s t = a @ b" by (auto simp: del_marker_append)
  have "str_contains marker_e (a @ b)"
    using marker_survives [of marker_s marker_e a b] e ab(1) markers_differ by simp
  then obtain j where j: "str_find marker_e (a @ b) = Some j" by (auto simp: str_contains_def)
  from str_find_Some_decomp [OF j] obtain c d where cd: "a @ b = c @ marker_e @ d" "length c = j"
    by blast
  have first_e: "\<forall>c' d'. a @ b = c' @ marker_e @ d' \<longrightarrow> length c \<le> length c'"
    using str_find_first [OF j] cd(2) by blast
  from cd have del2: "del_marker j marker_e (a @ b) = c @ d" by (auto simp: del_marker_append)
  from j del1 have j': "str_find marker_e (del_marker i marker_s t) = Some j" by simp
  have "write_record_loop t hits
      = write_record_loop (c @ d) (hits @ [(int (length a), int (length c))])"
    using write_record_loop_iter [OF s e i j', of hits] del1 del2 ab(2) cd(2) by simp
  with ab(1) first_s cd(1) first_e show ?thesis by blast
qed

lemma write_record_loop_total: "\<exists>r. write_record_loop t hits = Inr r"
proof (induction "length t" arbitrary: t hits rule: less_induct)
  case less
  show ?case
  proof (cases "str_contains marker_s t \<and> str_contains marker_e t")
    case False
    then show ?thesis by (simp add: write_record_loop_exit)
  next
    case True
    then have s: "str_contains marker_s t" and e: "str_contains marker_e t" by simp_all
    from write_record_loop_step [OF s e, of hits] obtain a b c d where
      t: "t = a @ marker_s @ b" and ab: "a @ b = c @ marker_e @ d"
      and eq: "write_record_loop t hits
          = write_record_loop (c @ d) (hits @ [(int (length a), int (length c))])"
      by blast
    from ab have "length (c @ d) \<le> length (a @ b)" by simp
    also from t have "length (a @ b) < length t" by (simp add: marker_s_def)
    finally have "length (c @ d) < length t" .
    from less.hyps [OF this] eq show ?thesis by simp
  qed
qed

lemma str_contains_appendI: "str_contains sub x \<Longrightarrow> str_contains sub (w @ x @ y)"
proof -
  assume "str_contains sub x"
  then obtain u v where "x = u @ sub @ v" by (auto simp: str_contains_iff)
  then have "w @ x @ y = (w @ u) @ sub @ (v @ y)" by simp
  then show ?thesis unfolding str_contains_iff by blast
qed

lemma write_record_loop_marked:
  assumes "\<not> str_contains marker_s (a @ plain segs tail)"
    and "\<not> str_contains marker_e (a @ plain segs tail)"
  shows "write_record_loop (a @ marked segs tail) hits
    = Inr (a @ plain segs tail, hits @ spans (length a) segs)"
  using assms
proof (induction segs arbitrary: a hits)
  case Nil
  then show ?case by (simp add: write_record_loop_exit)
next
  case (Cons seg segs)
  obtain p h where seg: "seg = (p, h)" by (cases seg)
  let ?rest = "marked segs tail"
  let ?t = "a @ marked (seg # segs) tail"
  have t: "?t = (a @ p) @ marker_s @ (h @ marker_e @ ?rest)" by (simp add: seg)
  have pl: "a @ plain (seg # segs) tail = (a @ p @ h) @ plain segs tail" by (simp add: seg)
  have ns: "\<not> str_contains marker_s (a @ p)"
    using Cons.prems(1) str_contains_appendI [of marker_s "a @ p" "[]" "h @ plain segs tail"]
    by (auto simp: seg)
  have ne: "\<not> str_contains marker_e (a @ p @ h)"
    using Cons.prems(2) str_contains_appendI [of marker_e "a @ p @ h" "[]" "plain segs tail"]
    by (auto simp: seg)
  have cs: "str_contains marker_s ?t" unfolding t str_contains_iff by blast
  have "?t = (a @ p @ marker_s @ h) @ marker_e @ ?rest" by (simp add: seg)
  then have ce: "str_contains marker_e ?t" unfolding str_contains_iff by blast
  have i: "str_find marker_s ?t = Some (length (a @ p))"
    unfolding t by (rule str_find_first_marker [OF _ ns]) simp
  have d1: "del_marker (length (a @ p)) marker_s ?t = (a @ p @ h) @ marker_e @ ?rest"
    unfolding t del_marker_append by simp
  have j: "str_find marker_e (del_marker (length (a @ p)) marker_s ?t) = Some (length (a @ p @ h))"
    unfolding d1 by (rule str_find_first_marker [OF _ ne]) simp
  have d2: "del_marker (length (a @ p @ h)) marker_e (del_marker (length (a @ p)) marker_s ?t)
      = (a @ p @ h) @ ?rest"
    unfolding d1 by (rule del_marker_append)
  have ih: "write_record_loop ((a @ p @ h) @ ?rest)
        (hits @ [(int (length (a @ p)), int (length (a @ p @ h)))])
      = Inr ((a @ p @ h) @ plain segs tail,
             (hits @ [(int (length (a @ p)), int (length (a @ p @ h)))])
               @ spans (length (a @ p @ h)) segs)"
    using Cons.prems by (intro Cons.IH) (simp_all add: seg)
  show ?case
    unfolding write_record_loop_iter [OF cs ce i j] d2 ih
    by (simp add: seg add.assoc)
qed

lemma spans_bounds:
  "(s, e) \<in> set (spans off segs) \<Longrightarrow>
     int off \<le> s \<and> s \<le> e \<and> e \<le> int (off + length (plain segs tail))"
proof (induction segs arbitrary: off)
  case Nil
  then show ?case by simp
next
  case (Cons seg segs)
  obtain p h where seg: "seg = (p, h)" by (cases seg)
  from Cons.prems consider "s = int (off + length p)" "e = int (off + length p + length h)"
    | "(s, e) \<in> set (spans (off + length p + length h) segs)"
    by (auto simp: seg)
  then show ?case
  proof cases
    case 1
    then show ?thesis by (simp add: seg)
  next
    case 2
    from Cons.IH [OF this] show ?thesis by (simp add: seg)
  qed
qed

text \<open>
  C7: while the text has both markers, the loop removes the first start marker, then the
  first end marker of the text that remains, and records the position of the start marker
  in the text and the position of the end marker in the text without the start marker; it
  stops, with the text and the spans it has, as soon as one of the markers is missing, and
  it never raises. On \<open>"a" + START + "b" + END + " c"\<close> the result is the text \<open>"ab c"\<close>
  and the one span \<open>(1, 2)\<close>.
\<close>

theorem write_record_loop_semantics:
  "(str_contains marker_s t \<and> str_contains marker_e t \<longrightarrow>
      (\<exists>a b c d. t = a @ marker_s @ b
         \<and> (\<forall>a' b'. t = a' @ marker_s @ b' \<longrightarrow> length a \<le> length a')
         \<and> a @ b = c @ marker_e @ d
         \<and> (\<forall>c' d'. a @ b = c' @ marker_e @ d' \<longrightarrow> length c \<le> length c')
         \<and> write_record_loop t hits
             = write_record_loop (c @ d) (hits @ [(int (length a), int (length c))])))
   \<and> (\<not> (str_contains marker_s t \<and> str_contains marker_e t) \<longrightarrow>
        write_record_loop t hits = Inr (t, hits))
   \<and> (\<exists>r. write_record_loop t hits = Inr r)
   \<and> write_record_hits (''a'' @ marker_s @ ''b'' @ marker_e @ '' c'') = Inr (''ab c'', [(1, 2)])"
proof (intro conjI impI)
  assume "str_contains marker_s t \<and> str_contains marker_e t"
  then show "\<exists>a b c d. t = a @ marker_s @ b
         \<and> (\<forall>a' b'. t = a' @ marker_s @ b' \<longrightarrow> length a \<le> length a')
         \<and> a @ b = c @ marker_e @ d
         \<and> (\<forall>c' d'. a @ b = c' @ marker_e @ d' \<longrightarrow> length c \<le> length c')
         \<and> write_record_loop t hits
             = write_record_loop (c @ d) (hits @ [(int (length a), int (length c))])"
    using write_record_loop_step by blast
next
  assume "\<not> (str_contains marker_s t \<and> str_contains marker_e t)"
  then show "write_record_loop t hits = Inr (t, hits)" by (rule write_record_loop_exit)
next
  show "\<exists>r. write_record_loop t hits = Inr r" by (rule write_record_loop_total)
next
  show "write_record_hits (''a'' @ marker_s @ ''b'' @ marker_e @ '' c'') = Inr (''ab c'', [(1, 2)])"
    by code_simp
qed

theorem write_record_loop_semantics_witness:
  "str_contains marker_s (''a'' @ marker_s @ ''b'' @ marker_e @ '' c'')
   \<and> str_contains marker_e (''a'' @ marker_s @ ''b'' @ marker_e @ '' c'')
   \<and> (\<exists>a b c d. ''a'' @ marker_s @ ''b'' @ marker_e @ '' c'' = a @ marker_s @ b
         \<and> a @ b = c @ marker_e @ d
         \<and> write_record_loop (''a'' @ marker_s @ ''b'' @ marker_e @ '' c'') []
             = write_record_loop (c @ d) ([] @ [(int (length a), int (length c))]))
   \<and> \<not> (str_contains marker_s ''ab c'' \<and> str_contains marker_e ''ab c'')
   \<and> write_record_loop ''ab c'' [(1, 2)] = Inr (''ab c'', [(1, 2)])"
proof -
  have h1: "str_contains marker_s (''a'' @ marker_s @ ''b'' @ marker_e @ '' c'')
      \<and> str_contains marker_e (''a'' @ marker_s @ ''b'' @ marker_e @ '' c'')"
    by code_simp
  have h2: "\<not> (str_contains marker_s ''ab c'' \<and> str_contains marker_e ''ab c'')"
    by code_simp
  from write_record_loop_semantics [of "''a'' @ marker_s @ ''b'' @ marker_e @ '' c''" "[]"] h1
  have r1: "\<exists>a b c d. ''a'' @ marker_s @ ''b'' @ marker_e @ '' c'' = a @ marker_s @ b
         \<and> a @ b = c @ marker_e @ d
         \<and> write_record_loop (''a'' @ marker_s @ ''b'' @ marker_e @ '' c'') []
             = write_record_loop (c @ d) ([] @ [(int (length a), int (length c))])"
    by blast
  from write_record_loop_semantics [of "''ab c''" "[(1, 2)]"] h2
  have r2: "write_record_loop ''ab c'' [(1, 2)] = Inr (''ab c'', [(1, 2)])"
    by blast
  from h1 r1 h2 r2 show ?thesis by blast
qed

text \<open>
  C8: for a text with well-formed markers whose ordinary text, taken together, contains
  neither marker, the loop returns that ordinary text and one span for each pair, and
  every span \<open>(start, end)\<close> has \<open>0 \<le> start \<le> end \<le> len(text)\<close> for the text returned.
\<close>

theorem write_record_hits_span_bounds:
  assumes "\<not> str_contains marker_s (plain segs tail)"
    and "\<not> str_contains marker_e (plain segs tail)"
  shows "\<exists>hs. write_record_hits (marked segs tail) = Inr (plain segs tail, hs)
    \<and> length hs = length segs
    \<and> (\<forall>(s, e) \<in> set hs. 0 \<le> s \<and> s \<le> e \<and> e \<le> int (length (plain segs tail)))"
proof -
  from write_record_loop_marked [of "[]" segs tail "[]"] assms
  have r: "write_record_hits (marked segs tail) = Inr (plain segs tail, spans 0 segs)"
    by (simp add: write_record_hits_def)
  have l: "length (spans off segs) = length segs" for off
    by (induction segs arbitrary: off) auto
  have "\<forall>(s, e) \<in> set (spans 0 segs). 0 \<le> s \<and> s \<le> e \<and> e \<le> int (length (plain segs tail))"
    using spans_bounds [of _ _ 0 segs tail] by auto
  with r l show ?thesis by blast
qed

theorem write_record_hits_span_bounds_witness:
  "write_record_hits (marked [(''a'', ''b''), ('' c '', ''dog'')] ''.'')
     = Inr (plain [(''a'', ''b''), ('' c '', ''dog'')] ''.'', [(1, 2), (5, 8)])
   \<and> plain [(''a'', ''b''), ('' c '', ''dog'')] ''.'' = ''ab c dog.''"
proof -
  have h1: "\<not> str_contains marker_s (plain [(''a'', ''b''), ('' c '', ''dog'')] ''.'')"
    by code_simp
  have h2: "\<not> str_contains marker_e (plain [(''a'', ''b''), ('' c '', ''dog'')] ''.'')"
    by code_simp
  have v: "write_record_hits (marked [(''a'', ''b''), ('' c '', ''dog'')] ''.'')
      = Inr (plain [(''a'', ''b''), ('' c '', ''dog'')] ''.'', [(1, 2), (5, 8)])"
    by code_simp
  have p: "plain [(''a'', ''b''), ('' c '', ''dog'')] ''.'' = ''ab c dog.''" by simp
  from write_record_hits_span_bounds [OF h1 h2] v p show ?thesis by blast
qed

text \<open>
  C10: when the text, at the start or after some rounds of the loop, has one of the two
  markers and not the other, the loop stops there: the text is returned as it is, with
  the marker still in it, and no span is added.
\<close>

theorem write_record_loop_unmatched_marker:
  assumes "str_contains marker_s t \<noteq> str_contains marker_e t"
  shows "write_record_loop t hits = Inr (t, hits)
    \<and> write_record_hits t = Inr (t, [])
    \<and> (str_contains marker_s t \<or> str_contains marker_e t)"
  using assms by (auto simp: write_record_hits_def write_record_loop_exit)

theorem write_record_loop_unmatched_marker_witness:
  "write_record_loop (''x'' @ marker_s @ ''y'') [(0, 1)] = Inr (''x'' @ marker_s @ ''y'', [(0, 1)])
   \<and> write_record_hits (''x'' @ marker_s @ ''y'') = Inr (''x'' @ marker_s @ ''y'', [])
   \<and> write_record_hits (''x'' @ marker_e @ ''y'') = Inr (''x'' @ marker_e @ ''y'', [])"
proof -
  have h1: "str_contains marker_s (''x'' @ marker_s @ ''y'')
      \<noteq> str_contains marker_e (''x'' @ marker_s @ ''y'')"
    by code_simp
  have h2: "str_contains marker_s (''x'' @ marker_e @ ''y'')
      \<noteq> str_contains marker_e (''x'' @ marker_e @ ''y'')"
    by code_simp
  from write_record_loop_unmatched_marker [OF h1, of "[(0, 1)]"]
    write_record_loop_unmatched_marker [OF h2, of "[]"]
  show ?thesis by blast
qed

end
